theory Spec2Isabelle
  imports Main "HOL-Library.Word"
begin

section \<open>covered.py: data model\<close>

text \<open>
  A \<open>pathlib.Path\<close> on POSIX: a root flag (the path is absolute) and the list of its
  components. \<open>joinpath d n\<close> is \<open>d / n\<close> for an entry name \<open>n\<close>, and
  \<open>str_path\<close> is \<open>str(p)\<close>.
\<close>

datatype path = Path (is_absolute: bool) (parts: "string list")

fun join_parts :: "string list \<Rightarrow> string" where
  "join_parts [] = []"
| "join_parts [n] = n"
| "join_parts (n # m # ns) = n @ ''/'' @ join_parts (m # ns)"

definition str_path :: "path \<Rightarrow> string" where
  "str_path p =
     (if is_absolute p then ''/'' @ join_parts (parts p)
      else if parts p = [] then ''.''
      else join_parts (parts p))"

definition joinpath :: "path \<Rightarrow> string \<Rightarrow> path" where
  "joinpath d n = Path (is_absolute d) (parts d @ [n])"

type_synonym bytes = "8 word list"

datatype os_error =
  FileNotFoundError | NotADirectoryError | PermissionError | RuntimeError | IOError

text \<open>
  The operating system calls the program makes, as functions of a fixed filesystem state:
  \<open>listdir\<close> gives the entry names of a directory (it raises on anything else),
  \<open>resolve\<close> is \<open>Path.resolve()\<close> (it raises on a loop of symlinks), \<open>is_dir\<close> is
  \<open>Path.is_dir()\<close> (it follows symlinks and answers \<open>False\<close> for a path that does
  not exist; it is taken not to raise) and \<open>open_rb\<close> gives the bytes that reading
  the file to its end delivers, or the error of \<open>open\<close>.
\<close>

record filesystem =
  listdir :: "path \<Rightarrow> os_error + string list"
  resolve :: "path \<Rightarrow> os_error + path"
  is_dir :: "path \<Rightarrow> bool"
  open_rb :: "path \<Rightarrow> os_error + bytes"

text \<open>\<open>list(d.iterdir())\<close>: the children of \<open>d\<close> are \<open>d / name\<close>.\<close>

definition iterdir :: "filesystem \<Rightarrow> path \<Rightarrow> os_error + path list" where
  "iterdir fs d =
     (case listdir fs d of
        Inl e \<Rightarrow> Inl e
      | Inr names \<Rightarrow> Inr (map (joinpath d) names))"

section \<open>The tree enumerator\<close>

text \<open>
  \<open>_all_files_in_dir\<close> is a generator. Calling it runs nothing: the generator object is
  \<open>Created d\<close>. The first \<open>next\<close> runs \<open>visited = set(); left = list(d.iterdir())\<close>
  and enters the loop; at a \<open>yield\<close> the generator is suspended with its two local
  variables, and the following \<open>next\<close> goes on at the head of the loop.
\<close>

datatype generator = Created path | Suspended "string set" "path list"

text \<open>
  The \<open>while left:\<close> loop up to the next \<open>yield\<close>. The result is \<open>None\<close> when the loop
  runs forever, \<open>Some (Inl e)\<close> when a call raises, \<open>Some (Inr None)\<close> when the loop ends
  (StopIteration) and \<open>Some (Inr (Some (fle, g)))\<close> when \<open>fle\<close> is yielded.
\<close>

partial_function (option) all_files_loop ::
  "filesystem \<Rightarrow> string set \<Rightarrow> path list \<Rightarrow> (os_error + (path \<times> generator) option) option"
where
  "all_files_loop fs visited left =
     (if left = [] then Some (Inr None)
      else
        let fle = last left; left1 = butlast left in
        case resolve fs fle of
          Inl e \<Rightarrow> Some (Inl e)
        | Inr r \<Rightarrow>
            let sfle = str_path r in
            if sfle \<in> visited then all_files_loop fs visited left1
            else
              let visited1 = insert sfle visited in
              if is_dir fs fle then
                (case iterdir fs fle of
                   Inl e \<Rightarrow> Some (Inl e)
                 | Inr cs \<Rightarrow> all_files_loop fs visited1 (left1 @ cs))
              else Some (Inr (Some (fle, Suspended visited1 left1))))"

definition all_files_in_dir :: "path \<Rightarrow> generator" where
  "all_files_in_dir d = Created d"

definition gen_next ::
  "filesystem \<Rightarrow> generator \<Rightarrow> (os_error + (path \<times> generator) option) option"
where
  "gen_next fs g =
     (case g of
        Created d \<Rightarrow>
          (case iterdir fs d of
             Inl e \<Rightarrow> Some (Inl e)
           | Inr cs \<Rightarrow> all_files_loop fs {} cs)
      | Suspended visited left \<Rightarrow> all_files_loop fs visited left)"

text \<open>\<open>list(g)\<close>: the generator run to its end.\<close>

partial_function (option) list_of ::
  "filesystem \<Rightarrow> generator \<Rightarrow> (os_error + path list) option"
where
  "list_of fs g =
     Option.bind (gen_next fs g) (\<lambda>r.
       case r of
         Inl e \<Rightarrow> Some (Inl e)
       | Inr None \<Rightarrow> Some (Inr [])
       | Inr (Some (fle, g1)) \<Rightarrow>
           Option.bind (list_of fs g1) (\<lambda>rest.
             case rest of
               Inl e \<Rightarrow> Some (Inl e)
             | Inr fles \<Rightarrow> Some (Inr (fle # fles))))"

section \<open>The coverage comparator\<close>

text \<open>
  \<open>[(fle, hash_fun(fle)) for fle in fles]\<close>: each file is hashed when the generator
  yields it, before the traversal goes on.
\<close>

partial_function (option) comprehension ::
  "filesystem \<Rightarrow> (path \<Rightarrow> os_error + string) \<Rightarrow> generator \<Rightarrow>
     (os_error + (path \<times> string) list) option"
where
  "comprehension fs hash_fun g =
     Option.bind (gen_next fs g) (\<lambda>r.
       case r of
         Inl e \<Rightarrow> Some (Inl e)
       | Inr None \<Rightarrow> Some (Inr [])
       | Inr (Some (fle, g1)) \<Rightarrow>
           (case hash_fun fle of
              Inl e \<Rightarrow> Some (Inl e)
            | Inr hsh \<Rightarrow>
                Option.bind (comprehension fs hash_fun g1) (\<lambda>rest.
                  case rest of
                    Inl e \<Rightarrow> Some (Inl e)
                  | Inr tups \<Rightarrow> Some (Inr ((fle, hsh) # tups)))))"

definition dir_contents ::
  "filesystem \<Rightarrow> path \<Rightarrow> (path \<Rightarrow> os_error + string) \<Rightarrow>
     (os_error + (path \<times> string) list) option"
where
  "dir_contents fs d hash_fun =
     (let fles = all_files_in_dir d in comprehension fs hash_fun fles)"

text \<open>The \<open>for\<close> loop of \<open>covered\<close>, with \<open>missings\<close> as accumulator.\<close>

fun missing_loop ::
  "string set \<Rightarrow> (path \<times> string) list \<Rightarrow> (path \<times> string) list \<Rightarrow> (path \<times> string) list"
where
  "missing_loop hashes_cov missings [] = missings"
| "missing_loop hashes_cov missings ((fle_src, hash_src) # rest) =
     (if hash_src \<notin> hashes_cov
      then missing_loop hashes_cov (missings @ [(fle_src, hash_src)]) rest
      else missing_loop hashes_cov missings rest)"

definition covered ::
  "filesystem \<Rightarrow> path \<Rightarrow> path \<Rightarrow> (path \<Rightarrow> os_error + string) \<Rightarrow>
     (os_error + (path \<times> string) list) option"
where
  "covered fs src covered_by hash_fun =
     Option.bind (dir_contents fs src hash_fun) (\<lambda>r1.
       case r1 of
         Inl e \<Rightarrow> Some (Inl e)
       | Inr contents_src \<Rightarrow>
           Option.bind (dir_contents fs covered_by hash_fun) (\<lambda>r2.
             case r2 of
               Inl e \<Rightarrow> Some (Inl e)
             | Inr contents_cov \<Rightarrow>
                 let hashes_cov = set (map snd contents_cov) in
                 Some (Inr (missing_loop hashes_cov [] contents_src))))"

section \<open>The content hasher\<close>

text \<open>
  The \<open>hashlib\<close> object is a parameter: \<open>new\<close> is \<open>hashlib.sha1()\<close>, \<open>update\<close> feeds
  bytes and \<open>hexdigest\<close> renders the digest.
\<close>

record 'h hasher =
  new :: "'h"
  update :: "'h \<Rightarrow> bytes \<Rightarrow> 'h"
  hexdigest :: "'h \<Rightarrow> string"

definition BUF_SIZE :: nat where
  "BUF_SIZE = 65536"

text \<open>
  The \<open>while True\<close> loop: \<open>rest\<close> is what the open file has still to deliver, and
  \<open>f.read(BUF_SIZE)\<close> takes at most \<open>BUF_SIZE\<close> bytes from its front.
\<close>

function read_loop :: "'h hasher \<Rightarrow> 'h \<Rightarrow> bytes \<Rightarrow> 'h" where
  "read_loop hl sha1 rest =
     (let data = take BUF_SIZE rest in
      if data = [] then sha1
      else read_loop hl (update hl sha1 data) (drop BUF_SIZE rest))"
  by pat_completeness auto
termination
  by (relation "measure (\<lambda>(hl, sha1, rest). length rest)") (auto simp: BUF_SIZE_def)

declare read_loop.simps [simp del]

definition sha1_file_hash :: "'h hasher \<Rightarrow> filesystem \<Rightarrow> path \<Rightarrow> os_error + string" where
  "sha1_file_hash hl fs fle =
     (case open_rb fs fle of
        Inl e \<Rightarrow> Inl e
      | Inr content \<Rightarrow> Inr (hexdigest hl (read_loop hl (new hl) content)))"

section \<open>The command line program\<close>

text \<open>
  \<open>main\<close> after argument parsing: \<open>src\<close> and \<open>cov\<close> are \<open>Path(args.src)\<close> and
  \<open>Path(args.cov)\<close>. The result is the list of lines written to standard output and
  how the run ended.
\<close>

definition TAB :: string where
  "TAB = [CHR 0x09]"

fun print_loop :: "string list \<Rightarrow> (path \<times> string) list \<Rightarrow> string list" where
  "print_loop out [] = out"
| "print_loop out (missing # rest) =
     print_loop (out @ [str_path (fst missing) @ TAB @ snd missing]) rest"

definition main ::
  "'h hasher \<Rightarrow> filesystem \<Rightarrow> path \<Rightarrow> path \<Rightarrow> (string list \<times> (os_error + unit)) option"
where
  "main hl fs src cov =
     (let hash_fun = sha1_file_hash hl fs; sep = TAB in
      case covered fs src cov hash_fun of
        None \<Rightarrow> None
      | Some (Inl e) \<Rightarrow> Some ([], Inl e)
      | Some (Inr missings) \<Rightarrow> Some (print_loop [] missings, Inr ()))"

section \<open>Notions used to state the properties\<close>


text \<open>The canonical strings of the directories of a filesystem.\<close>

definition canonical_dirs :: "filesystem \<Rightarrow> string set" where
  "canonical_dirs fs = {s. \<exists>p r. is_dir fs p \<and> resolve fs p = Inr r \<and> s = str_path r}"

text \<open>
  The paths a recursive descent from \<open>d\<close> can meet: the children of \<open>d\<close> and the
  children of every directory met.
\<close>

inductive_set reachable :: "filesystem \<Rightarrow> path \<Rightarrow> path set" for fs :: filesystem and d :: path
where
  child: "iterdir fs d = Inr cs \<Longrightarrow> p \<in> set cs \<Longrightarrow> p \<in> reachable fs d"
| descend: "q \<in> reachable fs d \<Longrightarrow> is_dir fs q \<Longrightarrow> iterdir fs q = Inr cs \<Longrightarrow> p \<in> set cs
     \<Longrightarrow> p \<in> reachable fs d"


text \<open>\<open>R\<close> holds the children of each of its directories.\<close>

definition closed_under :: "filesystem \<Rightarrow> path set \<Rightarrow> bool" where
  "closed_under fs R \<longleftrightarrow>
     (\<forall>q \<in> R. is_dir fs q \<longrightarrow> (\<forall>cs. iterdir fs q = Inr cs \<longrightarrow> set cs \<subseteq> R))"

text \<open>
  The order in which the states of the loop decrease: a directory not yet visited becomes
  visited, or the visited directories stay and the work list gets shorter.
\<close>

definition loop_rel :: "string set \<Rightarrow> ((string set \<times> path list) \<times> (string set \<times> path list)) set"
where
  "loop_rel D = inv_image (less_than <*lex*> less_than) (\<lambda>(v, l). (card (D - v), length l))"



text \<open>
  A second run, in the filesystem state \<open>fs'\<close>, gets from the operating system the
  answers of the run in \<open>fs\<close> for every path that a descent from \<open>d\<close> in \<open>fs\<close> asks
  about: the listing of \<open>d\<close>, and \<open>resolve\<close>, \<open>is_dir\<close> and the listing of each
  reachable path.
\<close>

definition same_answers :: "filesystem \<Rightarrow> filesystem \<Rightarrow> path \<Rightarrow> bool" where
  "same_answers fs fs' d \<longleftrightarrow>
     listdir fs' d = listdir fs d \<and>
     (\<forall>p \<in> reachable fs d.
        resolve fs' p = resolve fs p \<and> is_dir fs' p = is_dir fs p \<and>
        listdir fs' p = listdir fs p)"

text \<open>The error of the first file of a list that cannot be opened, if there is one.\<close>

fun first_failure :: "(path \<Rightarrow> os_error + 'a) \<Rightarrow> path list \<Rightarrow> os_error option" where
  "first_failure f [] = None"
| "first_failure f (p # ps) = (case f p of Inl e \<Rightarrow> Some e | Inr _ \<Rightarrow> first_failure f ps)"

text \<open>The laws of a \<open>hashlib\<close> object: feeding bytes in pieces is feeding them at once.\<close>

definition streaming :: "'h hasher \<Rightarrow> bool" where
  "streaming hl \<longleftrightarrow>
     (\<forall>h. update hl h [] = h) \<and>
     (\<forall>h a b. update hl (update hl h a) b = update hl h (a @ b))"

section \<open>A concrete filesystem\<close>

text \<open>
  The root directory holds \<open>A\<close> (\<open>a.txt\<close> with content hello, \<open>sub/b.txt\<close> with
  content world, and \<open>loop\<close>, a symlink to \<open>A\<close> itself), \<open>B\<close> (\<open>c.txt\<close>: hello),
  \<open>D\<close> (\<open>d1.txt\<close> and \<open>d2.txt\<close>: dup), the empty \<open>E\<close> and \<open>F\<close> (\<open>f1.txt\<close>:
  world, \<open>f2.txt\<close>: hello) and \<open>G\<close> (\<open>g.txt\<close>, a symlink to a file that does not
  exist). The working directory is the root.
\<close>

definition demo_canon :: "path \<Rightarrow> string" where
  "demo_canon p = str_path (Path True (filter (\<lambda>n. n \<noteq> ''loop'') (parts p)))"

definition demo_listing :: "string \<Rightarrow> string list option" where
  "demo_listing c =
     (if c = ''/A'' then Some [''a.txt'', ''sub'', ''loop'']
      else if c = ''/A/sub'' then Some [''b.txt'']
      else if c = ''/B'' then Some [''c.txt'']
      else if c = ''/D'' then Some [''d1.txt'', ''d2.txt'']
      else if c = ''/E'' then Some []
      else if c = ''/F'' then Some [''f1.txt'', ''f2.txt'']
      else if c = ''/G'' then Some [''g.txt'']
      else None)"

definition demo_content :: "string \<Rightarrow> bytes option" where
  "demo_content c =
     (if c = ''/A/a.txt'' then Some [104, 101, 108, 108, 111]
      else if c = ''/A/sub/b.txt'' then Some [119, 111, 114, 108, 100]
      else if c = ''/B/c.txt'' then Some [104, 101, 108, 108, 111]
      else if c = ''/D/d1.txt'' then Some [100, 117, 112]
      else if c = ''/D/d2.txt'' then Some [100, 117, 112]
      else if c = ''/F/f1.txt'' then Some [119, 111, 114, 108, 100]
      else if c = ''/F/f2.txt'' then Some [104, 101, 108, 108, 111]
      else None)"

definition demo_fs :: filesystem where
  "demo_fs =
     \<lparr> listdir = (\<lambda>p. case demo_listing (demo_canon p) of
                        None \<Rightarrow> Inl NotADirectoryError
                      | Some names \<Rightarrow> Inr names),
       resolve = (\<lambda>p. Inr (Path True (filter (\<lambda>n. n \<noteq> ''loop'') (parts p)))),
       is_dir = (\<lambda>p. demo_listing (demo_canon p) \<noteq> None),
       open_rb = (\<lambda>p. case demo_content (demo_canon p) of
                        None \<Rightarrow> Inl FileNotFoundError
                      | Some content \<Rightarrow> Inr content) \<rparr>"

text \<open>The same filesystem seen when \<open>D\<close> is no directory: only paths into \<open>D\<close> differ.\<close>

definition demo_fs_other :: filesystem where
  "demo_fs_other =
     demo_fs
       \<lparr> listdir := (\<lambda>p. if demo_canon p = ''/D'' then Inl NotADirectoryError
                         else listdir demo_fs p),
         is_dir := (\<lambda>p. demo_canon p \<noteq> ''/D'' \<and> is_dir demo_fs p) \<rparr>"

text \<open>A hasher that keeps what it is fed and renders it in lowercase hexadecimal.\<close>

definition hex_byte :: "8 word \<Rightarrow> string" where
  "hex_byte b = [''0123456789abcdef'' ! (unat b div 16), ''0123456789abcdef'' ! (unat b mod 16)]"

definition demo_hasher :: "bytes hasher" where
  "demo_hasher =
     \<lparr> new = [], update = (\<lambda>h data. h @ data), hexdigest = (\<lambda>h. concat (map hex_byte h)) \<rparr>"

definition demo_hash :: "path \<Rightarrow> os_error + string" where
  "demo_hash = sha1_file_hash demo_hasher demo_fs"

section \<open>Unfolding the loops\<close>

lemma missing_loop_filter:
  "missing_loop H acc xs = acc @ filter (\<lambda>t. snd t \<notin> H) xs"
  by (induction H acc xs rule: missing_loop.induct) auto

lemma print_loop_map:
  "print_loop out ms = out @ map (\<lambda>m. str_path (fst m) @ TAB @ snd m) ms"
  by (induction out ms rule: print_loop.induct) auto

lemma list_of_Inr_cases:
  "list_of fs g = Some (Inr fles) \<longleftrightarrow>
     (case fles of
        [] \<Rightarrow> gen_next fs g = Some (Inr None)
      | f # rest \<Rightarrow> \<exists>g1. gen_next fs g = Some (Inr (Some (f, g1))) \<and>
                         list_of fs g1 = Some (Inr rest))"
proof (cases "gen_next fs g")
  case None
  then show ?thesis by (subst list_of.simps) (simp split: list.splits)
next
  case (Some r)
  show ?thesis
  proof (cases r)
    case (Inl e)
    with Some show ?thesis by (subst list_of.simps) (simp split: list.splits)
  next
    case (Inr y)
    show ?thesis
    proof (cases y)
      case None
      with Some Inr show ?thesis by (subst list_of.simps) (simp split: list.splits)
    next
      case yielded: (Some fg)
      obtain f1 g1 where fg: "fg = (f1, g1)" by (cases fg)
      note n = Some Inr yielded fg
      show ?thesis
      proof (cases "list_of fs g1")
        case None
        with n show ?thesis by (subst list_of.simps) (simp split: list.splits)
      next
        case (Some rest)
        with n show ?thesis
          by (subst list_of.simps) (cases rest; auto split: list.splits)
      qed
    qed
  qed
qed

lemma list_of_Nil:
  "list_of fs g = Some (Inr []) \<longleftrightarrow> gen_next fs g = Some (Inr None)"
  by (simp add: list_of_Inr_cases)

lemma list_of_Cons:
  "list_of fs g = Some (Inr (f # rest)) \<longleftrightarrow>
     (\<exists>g1. gen_next fs g = Some (Inr (Some (f, g1))) \<and> list_of fs g1 = Some (Inr rest))"
  by (simp add: list_of_Inr_cases)

text \<open>
  When the enumeration ends and every hash succeeds, the comprehension pairs each
  enumerated file with its hash, in enumeration order.
\<close>

lemma comprehension_list_of:
  "list_of fs g = Some (Inr fles) \<Longrightarrow> \<forall>f \<in> set fles. \<exists>s. hash_fun f = Inr s \<Longrightarrow>
   comprehension fs hash_fun g = Some (Inr (map (\<lambda>f. (f, projr (hash_fun f))) fles))"
proof (induction fles arbitrary: g)
  case Nil
  then have "gen_next fs g = Some (Inr None)" by (simp add: list_of_Nil)
  then show ?case by (subst comprehension.simps) simp
next
  case (Cons f fles)
  from Cons.prems(1) obtain g1 where
    n: "gen_next fs g = Some (Inr (Some (f, g1)))" and r: "list_of fs g1 = Some (Inr fles)"
    by (auto simp: list_of_Cons)
  from Cons.prems(2) obtain s where s: "hash_fun f = Inr s" by auto
  have "comprehension fs hash_fun g1 = Some (Inr (map (\<lambda>f. (f, projr (hash_fun f))) fles))"
    using Cons.IH [OF r] Cons.prems(2) by simp
  then show ?case using n s by (subst comprehension.simps) simp
qed

text \<open>The first file whose hash fails ends the comprehension with that error.\<close>

lemma comprehension_first_failure:
  "list_of fs g = Some (Inr fles) \<Longrightarrow> first_failure hash_fun fles = Some e \<Longrightarrow>
   comprehension fs hash_fun g = Some (Inl e)"
proof (induction fles arbitrary: g)
  case Nil
  then show ?case by simp
next
  case (Cons f fles)
  from Cons.prems(1) obtain g1 where
    n: "gen_next fs g = Some (Inr (Some (f, g1)))" and r: "list_of fs g1 = Some (Inr fles)"
    by (auto simp: list_of_Cons)
  show ?case
  proof (cases "hash_fun f")
    case (Inl e')
    with Cons.prems(2) have "e' = e" by simp
    with n Inl show ?thesis by (subst comprehension.simps) simp
  next
    case (Inr s)
    with Cons.prems(2) have "first_failure hash_fun fles = Some e" by simp
    from Cons.IH [OF r this] n Inr show ?thesis by (subst comprehension.simps) simp
  qed
qed

lemma first_failure_None:
  "first_failure h fles = None \<longleftrightarrow> (\<forall>f \<in> set fles. \<exists>s. h f = Inr s)"
  by (induction fles) (auto split: sum.splits)

lemma dir_contents_list_of:
  "list_of fs (all_files_in_dir d) = Some (Inr fles) \<Longrightarrow>
   \<forall>f \<in> set fles. \<exists>s. hash_fun f = Inr s \<Longrightarrow>
   dir_contents fs d hash_fun = Some (Inr (map (\<lambda>f. (f, projr (hash_fun f))) fles))"
  by (simp add: dir_contents_def comprehension_list_of)

lemma dir_contents_first_failure:
  "list_of fs (all_files_in_dir d) = Some (Inr fles) \<Longrightarrow>
   first_failure hash_fun fles = Some e \<Longrightarrow>
   dir_contents fs d hash_fun = Some (Inl e)"
  by (simp add: dir_contents_def comprehension_first_failure)

lemma covered_Inr_iff:
  "covered fs src covered_by hash_fun = Some (Inr r) \<longleftrightarrow>
     (\<exists>cs cc. dir_contents fs src hash_fun = Some (Inr cs) \<and>
              dir_contents fs covered_by hash_fun = Some (Inr cc) \<and>
              r = filter (\<lambda>t. snd t \<notin> snd ` set cc) cs)"
proof (cases "dir_contents fs src hash_fun")
  case None
  then show ?thesis by (simp add: covered_def)
next
  case (Some r1)
  show ?thesis
  proof (cases r1)
    case (Inl e)
    with Some show ?thesis by (simp add: covered_def)
  next
    case (Inr cs)
    show ?thesis
    proof (cases "dir_contents fs covered_by hash_fun")
      case None
      with Some Inr show ?thesis by (simp add: covered_def)
    next
      case cov: (Some r2)
      with Some Inr show ?thesis
        by (cases r2) (auto simp: covered_def missing_loop_filter)
    qed
  qed
qed

lemma covered_of_enumerations:
  assumes "list_of fs (all_files_in_dir src) = Some (Inr fles_src)"
    and "list_of fs (all_files_in_dir covered_by) = Some (Inr fles_cov)"
    and "\<forall>f \<in> set fles_src \<union> set fles_cov. \<exists>s. hash_fun f = Inr s"
  shows "covered fs src covered_by hash_fun =
     Some (Inr (map (\<lambda>f. (f, projr (hash_fun f)))
       (filter (\<lambda>f. projr (hash_fun f) \<notin> (\<lambda>g. projr (hash_fun g)) ` set fles_cov) fles_src)))"
proof -
  have s: "dir_contents fs src hash_fun =
      Some (Inr (map (\<lambda>f. (f, projr (hash_fun f))) fles_src))"
    using assms(1,3) by (intro dir_contents_list_of) auto
  have c: "dir_contents fs covered_by hash_fun =
      Some (Inr (map (\<lambda>f. (f, projr (hash_fun f))) fles_cov))"
    using assms(2,3) by (intro dir_contents_list_of) auto
  show ?thesis
    unfolding covered_Inr_iff using s c
    by (simp add: filter_map o_def image_image)
qed

section \<open>Running the concrete filesystem\<close>

lemma all_files_loop_Nil: "all_files_loop fs visited [] = Some (Inr None)"
  by (subst all_files_loop.simps) simp

lemmas all_files_loop_Cons = all_files_loop.simps [of _ _ "x # xs" for x xs]

lemmas list_of_Created = list_of.simps [of _ "Created d" for d]

lemmas list_of_Suspended = list_of.simps [of _ "Suspended v l" for v l]

lemmas run_simps =
  all_files_loop_Nil all_files_loop_Cons list_of_Created list_of_Suspended
  gen_next_def iterdir_def joinpath_def all_files_in_dir_def str_path_def

lemma demo_fs_sel:
  "resolve demo_fs p = Inr (Path True (filter (\<lambda>n. n \<noteq> ''loop'') (parts p)))"
  "is_dir demo_fs p = (demo_listing (demo_canon p) \<noteq> None)"
  "listdir demo_fs p =
     (case demo_listing (demo_canon p) of
        None \<Rightarrow> Inl NotADirectoryError
      | Some names \<Rightarrow> Inr names)"
  "open_rb demo_fs p =
     (case demo_content (demo_canon p) of
        None \<Rightarrow> Inl FileNotFoundError
      | Some content \<Rightarrow> Inr content)"
  by (simp_all add: demo_fs_def)

lemmas demo_simps = demo_fs_sel demo_canon_def demo_listing_def

lemma demo_files_A:
  "list_of demo_fs (all_files_in_dir (Path True [''A''])) =
     Some (Inr [Path True [''A'', ''loop'', ''sub'', ''b.txt''],
                Path True [''A'', ''loop'', ''a.txt'']])"
  by (simp add: run_simps demo_simps)

lemma demo_files_A_relative:
  "list_of demo_fs (all_files_in_dir (Path False [''A''])) =
     Some (Inr [Path False [''A'', ''loop'', ''sub'', ''b.txt''],
                Path False [''A'', ''loop'', ''a.txt'']])"
  by (simp add: run_simps demo_simps)

lemma demo_files_B:
  "list_of demo_fs (all_files_in_dir (Path True [''B''])) = Some (Inr [Path True [''B'', ''c.txt'']])"
  by (simp add: run_simps demo_simps)

lemma demo_files_D:
  "list_of demo_fs (all_files_in_dir (Path True [''D''])) =
     Some (Inr [Path True [''D'', ''d2.txt''], Path True [''D'', ''d1.txt'']])"
  by (simp add: run_simps demo_simps)

lemma demo_files_E:
  "list_of demo_fs (all_files_in_dir (Path True [''E''])) = Some (Inr [])"
  by (simp add: run_simps demo_simps)

lemma demo_files_F:
  "list_of demo_fs (all_files_in_dir (Path True [''F''])) =
     Some (Inr [Path True [''F'', ''f2.txt''], Path True [''F'', ''f1.txt'']])"
  by (simp add: run_simps demo_simps)

lemma read_loop_small:
  "length content < BUF_SIZE \<Longrightarrow>
   read_loop hl h content = (if content = [] then h else update hl h content)"
  by (subst read_loop.simps, subst read_loop.simps) (simp add: BUF_SIZE_def)

lemma demo_open:
  "open_rb demo_fs (Path a [''A'', ''loop'', ''a.txt'']) = Inr [104, 101, 108, 108, 111]"
  "open_rb demo_fs (Path a [''A'', ''loop'', ''sub'', ''b.txt'']) = Inr [119, 111, 114, 108, 100]"
  "open_rb demo_fs (Path a [''B'', ''c.txt'']) = Inr [104, 101, 108, 108, 111]"
  "open_rb demo_fs (Path a [''D'', ''d1.txt'']) = Inr [100, 117, 112]"
  "open_rb demo_fs (Path a [''D'', ''d2.txt'']) = Inr [100, 117, 112]"
  "open_rb demo_fs (Path a [''F'', ''f1.txt'']) = Inr [119, 111, 114, 108, 100]"
  "open_rb demo_fs (Path a [''F'', ''f2.txt'']) = Inr [104, 101, 108, 108, 111]"
  by (simp_all add: demo_fs_sel demo_canon_def demo_content_def str_path_def)

lemma demo_hexdigest:
  "hexdigest demo_hasher (update demo_hasher (new demo_hasher) [104, 101, 108, 108, 111]) =
     ''68656c6c6f''"
  "hexdigest demo_hasher (update demo_hasher (new demo_hasher) [119, 111, 114, 108, 100]) =
     ''776f726c64''"
  "hexdigest demo_hasher (update demo_hasher (new demo_hasher) [100, 117, 112]) = ''647570''"
  by (simp_all add: demo_hasher_def hex_byte_def)

lemma demo_hash_values:
  "demo_hash (Path a [''A'', ''loop'', ''a.txt'']) = Inr ''68656c6c6f''"
  "demo_hash (Path a [''A'', ''loop'', ''sub'', ''b.txt'']) = Inr ''776f726c64''"
  "demo_hash (Path a [''B'', ''c.txt'']) = Inr ''68656c6c6f''"
  "demo_hash (Path a [''D'', ''d1.txt'']) = Inr ''647570''"
  "demo_hash (Path a [''D'', ''d2.txt'']) = Inr ''647570''"
  "demo_hash (Path a [''F'', ''f1.txt'']) = Inr ''776f726c64''"
  "demo_hash (Path a [''F'', ''f2.txt'']) = Inr ''68656c6c6f''"
  by (simp_all add: demo_hash_def sha1_file_hash_def demo_open read_loop_small BUF_SIZE_def
      demo_hexdigest)

lemma demo_covered_B_A:
  "covered demo_fs (Path True [''B'']) (Path True [''A'']) demo_hash = Some (Inr [])"
  using covered_of_enumerations [OF demo_files_B demo_files_A, of demo_hash]
  by (simp add: demo_hash_values)

lemma demo_covered_A_F:
  "covered demo_fs (Path True [''A'']) (Path True [''F'']) demo_hash = Some (Inr [])"
  using covered_of_enumerations [OF demo_files_A demo_files_F, of demo_hash]
  by (simp add: demo_hash_values)

section \<open>The coverage comparator: properties\<close>

text \<open>
  C1. When both enumerations end and every hash succeeds, \<open>covered\<close> returns the (path,
  hash) pairs of the enumerated source files whose hash is not among the hashes of the
  coverage tree's files, in the order of the source enumeration; a source file whose hash
  is that of some coverage file is not reported, whatever the two paths are.
\<close>

theorem covered_reports_unmatched:
  assumes "list_of fs (all_files_in_dir src) = Some (Inr fles_src)"
    and "list_of fs (all_files_in_dir covered_by) = Some (Inr fles_cov)"
    and "\<forall>f \<in> set fles_src \<union> set fles_cov. \<exists>s. hash_fun f = Inr s"
  shows "\<exists>r. covered fs src covered_by hash_fun = Some (Inr r) \<and>
     r = map (\<lambda>f. (f, projr (hash_fun f)))
           (filter (\<lambda>f. projr (hash_fun f) \<notin> (\<lambda>g. projr (hash_fun g)) ` set fles_cov) fles_src) \<and>
     (\<forall>f \<in> set fles_src. \<forall>g \<in> set fles_cov. hash_fun f = hash_fun g \<longrightarrow> f \<notin> fst ` set r)"
proof -
  let ?r = "map (\<lambda>f. (f, projr (hash_fun f)))
      (filter (\<lambda>f. projr (hash_fun f) \<notin> (\<lambda>g. projr (hash_fun g)) ` set fles_cov) fles_src)"
  have "covered fs src covered_by hash_fun = Some (Inr ?r)"
    by (rule covered_of_enumerations [OF assms])
  moreover have "\<forall>f \<in> set fles_src. \<forall>g \<in> set fles_cov. hash_fun f = hash_fun g \<longrightarrow>
      f \<notin> fst ` set ?r"
    by (auto simp: image_iff)
  ultimately show ?thesis by blast
qed

theorem covered_reports_unmatched_witness:
  "covered demo_fs (Path True [''A'']) (Path True [''B'']) demo_hash =
     Some (Inr [(Path True [''A'', ''loop'', ''sub'', ''b.txt''], ''776f726c64'')])"
  using covered_reports_unmatched [OF demo_files_A demo_files_B, of demo_hash]
  by (simp add: demo_hash_values)

text \<open>
  C2. When the hash is determined by the content and every file enumerated in \<open>A\<close> has
  the content of some file enumerated in \<open>B\<close>, \<open>covered A B\<close> returns the empty list.
\<close>

theorem covered_empty_when_content_present:
  assumes "list_of fs (all_files_in_dir A) = Some (Inr fles_A)"
    and "list_of fs (all_files_in_dir B) = Some (Inr fles_B)"
    and "\<forall>f \<in> set fles_A \<union> set fles_B. \<exists>s. hash_fun f = Inr s"
    and "\<forall>f g content. open_rb fs f = Inr content \<and> open_rb fs g = Inr content \<longrightarrow>
           hash_fun f = hash_fun g"
    and "\<forall>f \<in> set fles_A. \<exists>g \<in> set fles_B. \<exists>content.
           open_rb fs f = Inr content \<and> open_rb fs g = Inr content"
  shows "covered fs A B hash_fun = Some (Inr [])"
proof -
  have "\<forall>f \<in> set fles_A. projr (hash_fun f) \<in> (\<lambda>g. projr (hash_fun g)) ` set fles_B"
  proof
    fix f assume "f \<in> set fles_A"
    with assms(5) obtain g content where "g \<in> set fles_B"
      "open_rb fs f = Inr content" "open_rb fs g = Inr content" by blast
    with assms(4) have "hash_fun f = hash_fun g" by blast
    with \<open>g \<in> set fles_B\<close> show "projr (hash_fun f) \<in> (\<lambda>g. projr (hash_fun g)) ` set fles_B"
      by auto
  qed
  then have "filter (\<lambda>f. projr (hash_fun f) \<notin> (\<lambda>g. projr (hash_fun g)) ` set fles_B) fles_A = []"
    by (simp add: filter_empty_conv)
  with covered_of_enumerations [OF assms(1,2,3)] show ?thesis by simp
qed

theorem covered_empty_when_content_present_witness:
  "covered demo_fs (Path True [''B'']) (Path True [''A'']) demo_hash = Some (Inr [])"
proof (rule covered_empty_when_content_present [OF demo_files_B demo_files_A])
  show "\<forall>f \<in> set [Path True [''B'', ''c.txt'']] \<union>
      set [Path True [''A'', ''loop'', ''sub'', ''b.txt''], Path True [''A'', ''loop'', ''a.txt'']].
      \<exists>s. demo_hash f = Inr s"
    by (simp add: demo_hash_values)
  show "\<forall>f g content. open_rb demo_fs f = Inr content \<and> open_rb demo_fs g = Inr content \<longrightarrow>
      demo_hash f = demo_hash g"
    by (simp add: demo_hash_def sha1_file_hash_def)
  show "\<forall>f \<in> set [Path True [''B'', ''c.txt'']].
      \<exists>g \<in> set [Path True [''A'', ''loop'', ''sub'', ''b.txt''], Path True [''A'', ''loop'', ''a.txt'']].
      \<exists>content. open_rb demo_fs f = Inr content \<and> open_rb demo_fs g = Inr content"
    by (simp add: demo_open)
qed

text \<open>
  C3. When the coverage tree has no file and the source enumeration gives \<open>k\<close> files whose
  hashes succeed, \<open>covered\<close> returns \<open>k\<close> entries: each source file with its hash, in
  enumeration order.
\<close>

theorem covered_against_empty_tree:
  assumes "list_of fs (all_files_in_dir A) = Some (Inr fles_A)"
    and "list_of fs (all_files_in_dir B) = Some (Inr [])"
    and "\<forall>f \<in> set fles_A. \<exists>s. hash_fun f = Inr s"
  shows "\<exists>r. covered fs A B hash_fun = Some (Inr r) \<and>
     r = map (\<lambda>f. (f, projr (hash_fun f))) fles_A \<and> length r = length fles_A"
  using covered_of_enumerations [OF assms(1,2), of hash_fun] assms(3) by simp

theorem covered_against_empty_tree_witness:
  "covered demo_fs (Path True [''A'']) (Path True [''E'']) demo_hash =
     Some (Inr [(Path True [''A'', ''loop'', ''sub'', ''b.txt''], ''776f726c64''),
                (Path True [''A'', ''loop'', ''a.txt''], ''68656c6c6f'')])"
  using covered_against_empty_tree [OF demo_files_A demo_files_E, of demo_hash]
  by (simp add: demo_hash_values)

text \<open>
  C7. The report is not deduplicated by hash: the reported paths are the enumerated source
  files whose hash is missing from the coverage tree, one entry for each of them, also
  when several of them have the same content.
\<close>

theorem covered_reports_each_duplicate:
  assumes "list_of fs (all_files_in_dir src) = Some (Inr fles_src)"
    and "list_of fs (all_files_in_dir covered_by) = Some (Inr fles_cov)"
    and "\<forall>f \<in> set fles_src \<union> set fles_cov. \<exists>s. hash_fun f = Inr s"
  shows "\<exists>r. covered fs src covered_by hash_fun = Some (Inr r) \<and>
     map fst r =
       filter (\<lambda>f. projr (hash_fun f) \<notin> (\<lambda>g. projr (hash_fun g)) ` set fles_cov) fles_src \<and>
     (\<forall>f \<in> set fles_src. projr (hash_fun f) \<notin> (\<lambda>g. projr (hash_fun g)) ` set fles_cov \<longrightarrow>
        (f, projr (hash_fun f)) \<in> set r)"
proof -
  let ?r = "map (\<lambda>f. (f, projr (hash_fun f)))
      (filter (\<lambda>f. projr (hash_fun f) \<notin> (\<lambda>g. projr (hash_fun g)) ` set fles_cov) fles_src)"
  have "covered fs src covered_by hash_fun = Some (Inr ?r)"
    by (rule covered_of_enumerations [OF assms])
  moreover have "map fst ?r =
      filter (\<lambda>f. projr (hash_fun f) \<notin> (\<lambda>g. projr (hash_fun g)) ` set fles_cov) fles_src"
    by (simp add: o_def)
  moreover have "\<forall>f \<in> set fles_src.
      projr (hash_fun f) \<notin> (\<lambda>g. projr (hash_fun g)) ` set fles_cov \<longrightarrow>
      (f, projr (hash_fun f)) \<in> set ?r"
    by (auto simp: image_iff)
  ultimately show ?thesis by blast
qed

theorem covered_reports_each_duplicate_witness:
  "covered demo_fs (Path True [''D'']) (Path True [''B'']) demo_hash =
     Some (Inr [(Path True [''D'', ''d2.txt''], ''647570''),
                (Path True [''D'', ''d1.txt''], ''647570'')])"
proof -
  from covered_reports_each_duplicate [OF demo_files_D demo_files_B, of demo_hash]
  obtain r where r: "covered demo_fs (Path True [''D'']) (Path True [''B'']) demo_hash = Some (Inr r)"
    and m: "map fst r = [Path True [''D'', ''d2.txt''], Path True [''D'', ''d1.txt'']]"
    and i: "(Path True [''D'', ''d2.txt''], ''647570'') \<in> set r"
           "(Path True [''D'', ''d1.txt''], ''647570'') \<in> set r"
    by (auto simp: demo_hash_values)
  from m obtain x y where xy: "r = [x, y]" "fst x = Path True [''D'', ''d2.txt'']"
    "fst y = Path True [''D'', ''d1.txt'']"
    by (auto simp: map_eq_Cons_conv)
  with i have "x = (Path True [''D'', ''d2.txt''], ''647570'')"
    "y = (Path True [''D'', ''d1.txt''], ''647570'')"
    by auto
  with r xy show ?thesis by simp
qed

text \<open>
  C10. Coverage is transitive: when \<open>covered A B\<close> and \<open>covered B C\<close> return the empty
  list, so does \<open>covered A C\<close>.
\<close>

theorem covered_transitive:
  assumes "covered fs A B hash_fun = Some (Inr [])"
    and "covered fs B C hash_fun = Some (Inr [])"
  shows "covered fs A C hash_fun = Some (Inr [])"
proof -
  from assms(1) obtain ca cb where
    a: "dir_contents fs A hash_fun = Some (Inr ca)" and
    b: "dir_contents fs B hash_fun = Some (Inr cb)" and
    ab: "filter (\<lambda>t. snd t \<notin> snd ` set cb) ca = []"
    unfolding covered_Inr_iff by auto
  from assms(2) b obtain cc where
    c: "dir_contents fs C hash_fun = Some (Inr cc)" and
    bc: "filter (\<lambda>t. snd t \<notin> snd ` set cc) cb = []"
    unfolding covered_Inr_iff by auto
  from ab have "snd ` set ca \<subseteq> snd ` set cb" by (auto simp: filter_empty_conv)
  moreover from bc have "snd ` set cb \<subseteq> snd ` set cc" by (auto simp: filter_empty_conv)
  ultimately have "filter (\<lambda>t. snd t \<notin> snd ` set cc) ca = []"
    by (auto simp: filter_empty_conv)
  with a c show ?thesis unfolding covered_Inr_iff by simp
qed

theorem covered_transitive_witness:
  "covered demo_fs (Path True [''B'']) (Path True [''F'']) demo_hash = Some (Inr [])"
  by (rule covered_transitive [OF demo_covered_B_A demo_covered_A_F])

lemma demo_files_D_relative:
  "list_of demo_fs (all_files_in_dir (Path False [''D''])) =
     Some (Inr [Path False [''D'', ''d2.txt''], Path False [''D'', ''d1.txt'']])"
  by (simp add: run_simps demo_simps)

lemma demo_files_G:
  "list_of demo_fs (all_files_in_dir (Path True [''G''])) = Some (Inr [Path True [''G'', ''g.txt'']])"
  by (simp add: run_simps demo_simps)

lemma demo_open_G: "open_rb demo_fs (Path True [''G'', ''g.txt'']) = Inl FileNotFoundError"
  by (simp add: demo_fs_sel demo_canon_def demo_content_def str_path_def)

section \<open>The content hasher: properties\<close>

lemma read_loop_update:
  "streaming hl \<Longrightarrow> read_loop hl h content = update hl h content"
proof (induction hl h content rule: read_loop.induct)
  case (1 hl sha1 rest)
  note laws = \<open>streaming hl\<close> [unfolded streaming_def]
  show ?case
  proof (cases "take BUF_SIZE rest = []")
    case True
    then have "rest = []" by (simp add: BUF_SIZE_def)
    moreover from laws have "update hl sha1 [] = sha1" by simp
    ultimately show ?thesis by (subst read_loop.simps) simp
  next
    case False
    have "read_loop hl sha1 rest =
        read_loop hl (update hl sha1 (take BUF_SIZE rest)) (drop BUF_SIZE rest)"
      using False by (subst read_loop.simps) simp
    also have "\<dots> = update hl (update hl sha1 (take BUF_SIZE rest)) (drop BUF_SIZE rest)"
      using "1.IH" [OF refl False] "1.prems" by simp
    also have "\<dots> = update hl sha1 (take BUF_SIZE rest @ drop BUF_SIZE rest)"
      using laws by simp
    finally show ?thesis by simp
  qed
qed

lemma demo_hasher_streaming: "streaming demo_hasher"
  by (simp add: streaming_def demo_hasher_def)

text \<open>
  C6. For a \<open>hashlib\<close> object that obeys the streaming laws, \<open>sha1_file_hash\<close> returns the
  hexadecimal digest of the whole content fed at once, whatever the size of the chunks
  read; the result depends on the path only through the content, so two files with the
  same content have the same hash string.
\<close>

theorem sha1_file_hash_digest_of_content:
  assumes "streaming hl"
  shows "sha1_file_hash hl fs fle =
       (case open_rb fs fle of
          Inl e \<Rightarrow> Inl e
        | Inr content \<Rightarrow> Inr (hexdigest hl (update hl (new hl) content))) \<and>
     (\<forall>g. open_rb fs g = open_rb fs fle \<longrightarrow> sha1_file_hash hl fs g = sha1_file_hash hl fs fle)"
  using assms by (simp add: sha1_file_hash_def read_loop_update split: sum.splits)

theorem sha1_file_hash_digest_of_content_witness:
  "sha1_file_hash demo_hasher demo_fs (Path True [''B'', ''c.txt'']) = Inr ''68656c6c6f'' \<and>
   sha1_file_hash demo_hasher demo_fs (Path True [''A'', ''loop'', ''a.txt'']) =
     sha1_file_hash demo_hasher demo_fs (Path True [''B'', ''c.txt''])"
proof -
  from sha1_file_hash_digest_of_content [OF demo_hasher_streaming,
      of demo_fs "Path True [''B'', ''c.txt'']"]
  have v: "sha1_file_hash demo_hasher demo_fs (Path True [''B'', ''c.txt'']) =
      (case open_rb demo_fs (Path True [''B'', ''c.txt'']) of
         Inl e \<Rightarrow> Inl e
       | Inr content \<Rightarrow>
           Inr (hexdigest demo_hasher (update demo_hasher (new demo_hasher) content)))"
    and s: "open_rb demo_fs (Path True [''A'', ''loop'', ''a.txt'']) =
        open_rb demo_fs (Path True [''B'', ''c.txt'']) \<longrightarrow>
      sha1_file_hash demo_hasher demo_fs (Path True [''A'', ''loop'', ''a.txt'']) =
        sha1_file_hash demo_hasher demo_fs (Path True [''B'', ''c.txt''])"
    by blast+
  from v have "sha1_file_hash demo_hasher demo_fs (Path True [''B'', ''c.txt'']) =
      Inr ''68656c6c6f''"
    by (simp add: demo_open demo_hexdigest)
  moreover from s have
    "sha1_file_hash demo_hasher demo_fs (Path True [''A'', ''loop'', ''a.txt'']) =
       sha1_file_hash demo_hasher demo_fs (Path True [''B'', ''c.txt''])"
    by (simp add: demo_open)
  ultimately show ?thesis by simp
qed

section \<open>The command line program: properties\<close>

lemma first_failure_sha1:
  "first_failure (sha1_file_hash hl fs) fles = first_failure (open_rb fs) fles"
  by (induction fles) (auto simp: sha1_file_hash_def split: sum.splits)

lemma covered_src_failure:
  "dir_contents fs src hash_fun = Some (Inl e) \<Longrightarrow>
   covered fs src covered_by hash_fun = Some (Inl e)"
  by (simp add: covered_def)

lemma covered_cov_failure:
  "dir_contents fs src hash_fun = Some (Inr cs) \<Longrightarrow>
   dir_contents fs covered_by hash_fun = Some (Inl e) \<Longrightarrow>
   covered fs src covered_by hash_fun = Some (Inl e)"
  by (simp add: covered_def)

text \<open>
  C8. When a file enumerated in the source tree or in the coverage tree cannot be opened,
  the run ends with the error of the first such file and nothing is written to standard
  output, also when files before it were hashed.
\<close>

theorem main_no_output_on_read_error:
  assumes "list_of fs (all_files_in_dir src) = Some (Inr fles_src)"
    and "first_failure (open_rb fs) fles_src = Some e \<or>
         first_failure (open_rb fs) fles_src = None \<and>
         list_of fs (all_files_in_dir cov) = Some (Inr fles_cov) \<and>
         first_failure (open_rb fs) fles_cov = Some e"
  shows "main hl fs src cov = Some ([], Inl e)"
proof -
  have "covered fs src cov (sha1_file_hash hl fs) = Some (Inl e)"
    using assms(2)
  proof (elim disjE conjE)
    assume "first_failure (open_rb fs) fles_src = Some e"
    then have "dir_contents fs src (sha1_file_hash hl fs) = Some (Inl e)"
      using assms(1) by (intro dir_contents_first_failure) (simp_all add: first_failure_sha1)
    then show ?thesis by (rule covered_src_failure)
  next
    assume ok: "first_failure (open_rb fs) fles_src = None"
      and c: "list_of fs (all_files_in_dir cov) = Some (Inr fles_cov)"
      and f: "first_failure (open_rb fs) fles_cov = Some e"
    from ok have "\<forall>f \<in> set fles_src. \<exists>s. sha1_file_hash hl fs f = Inr s"
      by (simp add: first_failure_None [symmetric] first_failure_sha1)
    from dir_contents_list_of [OF assms(1) this]
    have s: "dir_contents fs src (sha1_file_hash hl fs) =
        Some (Inr (map (\<lambda>f. (f, projr (sha1_file_hash hl fs f))) fles_src))" .
    have "dir_contents fs cov (sha1_file_hash hl fs) = Some (Inl e)"
      using c f by (intro dir_contents_first_failure) (simp_all add: first_failure_sha1)
    with s show ?thesis by (rule covered_cov_failure)
  qed
  then show ?thesis by (simp add: main_def)
qed

theorem main_no_output_on_read_error_witness:
  "main demo_hasher demo_fs (Path True [''A'']) (Path True [''G'']) =
     Some ([], Inl FileNotFoundError)"
proof (rule main_no_output_on_read_error [OF demo_files_A])
  show "first_failure (open_rb demo_fs)
      [Path True [''A'', ''loop'', ''sub'', ''b.txt''], Path True [''A'', ''loop'', ''a.txt'']] =
        Some FileNotFoundError \<or>
      first_failure (open_rb demo_fs)
      [Path True [''A'', ''loop'', ''sub'', ''b.txt''], Path True [''A'', ''loop'', ''a.txt'']] = None \<and>
      list_of demo_fs (all_files_in_dir (Path True [''G''])) =
        Some (Inr [Path True [''G'', ''g.txt'']]) \<and>
      first_failure (open_rb demo_fs) [Path True [''G'', ''g.txt'']] = Some FileNotFoundError"
    by (simp add: demo_open demo_open_G demo_files_G)
qed

text \<open>
  What \<open>main\<close> prints: one line for each missing file, the path as the enumeration gave
  it, a tab and the hash. The enumerated paths are absolute exactly when the directory
  given is.
\<close>

lemma main_prints_report:
  "covered fs src cov (sha1_file_hash hl fs) = Some (Inr missings) \<Longrightarrow>
   main hl fs src cov = Some (map (\<lambda>m. str_path (fst m) @ TAB @ snd m) missings, Inr ())"
  by (simp add: main_def print_loop_map)

lemma reachable_is_absolute:
  "p \<in> reachable fs d \<Longrightarrow> is_absolute p = is_absolute d"
  by (induction rule: reachable.induct)
     (auto simp: iterdir_def joinpath_def split: sum.splits)

text \<open>
  C5. With a relative source directory the enumerated paths are relative, and so are the
  paths of the printed lines: the run below, in the working directory that holds \<open>D\<close>,
  prints \<open>D/d2.txt\<close> and \<open>D/d1.txt\<close>, each followed by a tab and the hash.
\<close>

theorem main_relative_src_prints_relative_paths:
  "list_of demo_fs (all_files_in_dir (Path False [''D''])) =
     Some (Inr [Path False [''D'', ''d2.txt''], Path False [''D'', ''d1.txt'']]) \<and>
   main demo_hasher demo_fs (Path False [''D'']) (Path True [''B'']) =
     Some ([''D/d2.txt'' @ TAB @ ''647570'', ''D/d1.txt'' @ TAB @ ''647570''], Inr ())"
proof -
  have "covered demo_fs (Path False [''D'']) (Path True [''B'']) demo_hash =
      Some (Inr [(Path False [''D'', ''d2.txt''], ''647570''),
                 (Path False [''D'', ''d1.txt''], ''647570'')])"
    using covered_of_enumerations [OF demo_files_D_relative demo_files_B, of demo_hash]
    by (simp add: demo_hash_values)
  then show ?thesis
    by (simp add: demo_files_D_relative main_def demo_hash_def [symmetric] str_path_def)
qed

section \<open>The tree enumerator: one iteration of the loop\<close>

lemma loop_resolve_error:
  "left \<noteq> [] \<Longrightarrow> resolve fs (last left) = Inl e \<Longrightarrow>
   all_files_loop fs visited left = Some (Inl e)"
  by (subst all_files_loop.simps) simp

lemma loop_skip:
  "left \<noteq> [] \<Longrightarrow> resolve fs (last left) = Inr r \<Longrightarrow> str_path r \<in> visited \<Longrightarrow>
   all_files_loop fs visited left = all_files_loop fs visited (butlast left)"
  by (subst all_files_loop.simps) simp

lemma loop_iterdir_error:
  "left \<noteq> [] \<Longrightarrow> resolve fs (last left) = Inr r \<Longrightarrow> str_path r \<notin> visited \<Longrightarrow>
   is_dir fs (last left) \<Longrightarrow> iterdir fs (last left) = Inl e \<Longrightarrow>
   all_files_loop fs visited left = Some (Inl e)"
  by (subst all_files_loop.simps) simp

lemma loop_descend:
  "left \<noteq> [] \<Longrightarrow> resolve fs (last left) = Inr r \<Longrightarrow> str_path r \<notin> visited \<Longrightarrow>
   is_dir fs (last left) \<Longrightarrow> iterdir fs (last left) = Inr cs \<Longrightarrow>
   all_files_loop fs visited left =
     all_files_loop fs (insert (str_path r) visited) (butlast left @ cs)"
  by (subst all_files_loop.simps) simp

lemma loop_yield:
  "left \<noteq> [] \<Longrightarrow> resolve fs (last left) = Inr r \<Longrightarrow> str_path r \<notin> visited \<Longrightarrow>
   \<not> is_dir fs (last left) \<Longrightarrow>
   all_files_loop fs visited left =
     Some (Inr (Some (last left, Suspended (insert (str_path r) visited) (butlast left))))"
  by (subst all_files_loop.simps) simp

section \<open>The tree enumerator: termination\<close>

lemma wf_loop_rel: "wf (loop_rel D)"
  unfolding loop_rel_def by (intro wf_inv_image wf_lex_prod wf_less_than)

lemma trans_loop_rel: "trans (loop_rel D)"
  unfolding loop_rel_def
  by (intro trans_inv_image trans_lex_prod) simp_all

lemma loop_rel_shorter:
  "length l' < length l \<Longrightarrow> ((v, l'), (v, l)) \<in> loop_rel D"
  by (simp add: loop_rel_def)

lemma loop_rel_new_dir:
  assumes "finite D" "s \<in> D" "s \<notin> v"
  shows "((insert s v, l'), (v, l)) \<in> loop_rel D"
proof -
  have "D - insert s v \<subset> D - v" using assms by auto
  then have "card (D - insert s v) < card (D - v)"
    using assms(1) by (intro psubset_card_mono) auto
  then show ?thesis by (simp add: loop_rel_def)
qed

lemma loop_rel_file:
  assumes "finite D" "length l' < length l"
  shows "((insert s v, l'), (v, l)) \<in> loop_rel D"
proof -
  have "card (D - insert s v) \<le> card (D - v)"
    using assms(1) by (intro card_mono) auto
  with assms(2) show ?thesis by (auto simp: loop_rel_def)
qed

lemma canonical_dirs_member:
  "is_dir fs p \<Longrightarrow> resolve fs p = Inr r \<Longrightarrow> str_path r \<in> canonical_dirs fs"
  by (auto simp: canonical_dirs_def)

text \<open>
  Induction over the iterations of the loop, for a filesystem with finitely many
  directories.
\<close>

lemma loop_induct [consumes 1, case_names empty resolve_error skip iterdir_error descend yield]:
  assumes fin: "finite (canonical_dirs fs)"
    and empty: "\<And>v. P v []"
    and resolve_error: "\<And>v l e. l \<noteq> [] \<Longrightarrow> resolve fs (last l) = Inl e \<Longrightarrow> P v l"
    and skip: "\<And>v l r. l \<noteq> [] \<Longrightarrow> resolve fs (last l) = Inr r \<Longrightarrow> str_path r \<in> v \<Longrightarrow>
        P v (butlast l) \<Longrightarrow> P v l"
    and iterdir_error: "\<And>v l r e. l \<noteq> [] \<Longrightarrow> resolve fs (last l) = Inr r \<Longrightarrow>
        str_path r \<notin> v \<Longrightarrow> is_dir fs (last l) \<Longrightarrow> iterdir fs (last l) = Inl e \<Longrightarrow> P v l"
    and descend: "\<And>v l r cs. l \<noteq> [] \<Longrightarrow> resolve fs (last l) = Inr r \<Longrightarrow>
        str_path r \<notin> v \<Longrightarrow> is_dir fs (last l) \<Longrightarrow> iterdir fs (last l) = Inr cs \<Longrightarrow>
        P (insert (str_path r) v) (butlast l @ cs) \<Longrightarrow> P v l"
    and yield: "\<And>v l r. l \<noteq> [] \<Longrightarrow> resolve fs (last l) = Inr r \<Longrightarrow>
        str_path r \<notin> v \<Longrightarrow> \<not> is_dir fs (last l) \<Longrightarrow> P v l"
  shows "P v l"
proof (induction "(v, l)" arbitrary: v l rule: wf_induct_rule [OF wf_loop_rel [of "canonical_dirs fs"]])
  case less: 1
  show ?case
  proof (cases "l = []")
    case True
    then show ?thesis by (simp add: empty)
  next
    case False
    show ?thesis
    proof (cases "resolve fs (last l)")
      case (Inl e)
      with False show ?thesis by (rule resolve_error)
    next
      case (Inr r)
      show ?thesis
      proof (cases "str_path r \<in> v")
        case True
        have "((v, butlast l), (v, l)) \<in> loop_rel (canonical_dirs fs)"
          using False by (intro loop_rel_shorter) simp
        then have "P v (butlast l)" by (rule less)
        with False Inr True show ?thesis by (rule skip)
      next
        case new: False
        show ?thesis
        proof (cases "is_dir fs (last l)")
          case dir: True
          show ?thesis
          proof (cases "iterdir fs (last l)")
            case (Inl e)
            with False Inr new dir show ?thesis by (rule iterdir_error)
          next
            case cs: (Inr cs)
            have "((insert (str_path r) v, butlast l @ cs), (v, l)) \<in> loop_rel (canonical_dirs fs)"
              using fin canonical_dirs_member [OF dir Inr] new by (rule loop_rel_new_dir)
            then have "P (insert (str_path r) v) (butlast l @ cs)" by (rule less)
            with False Inr new dir cs show ?thesis by (rule descend)
          qed
        next
          case False
          with \<open>l \<noteq> []\<close> Inr new show ?thesis by (rule yield)
        qed
      qed
    qed
  qed
qed

lemma loop_terminates:
  assumes "finite (canonical_dirs fs)"
  shows "\<exists>r. all_files_loop fs v l = Some r"
  using assms
proof (induction v l rule: loop_induct)
  case (empty v)
  show ?case by (simp add: all_files_loop_Nil)
next
  case (resolve_error v l e)
  then show ?case by (simp add: loop_resolve_error)
next
  case (skip v l r)
  then show ?case by (simp add: loop_skip)
next
  case (iterdir_error v l r e)
  then show ?case by (simp add: loop_iterdir_error)
next
  case (descend v l r cs)
  then show ?case by (simp add: loop_descend)
next
  case (yield v l r)
  then show ?case by (simp add: loop_yield)
qed

text \<open>What the loop hands back at a \<open>yield\<close> is a smaller state.\<close>

lemma loop_yield_decreases:
  assumes "finite (canonical_dirs fs)"
  shows "all_files_loop fs v l = Some (Inr (Some (f, g))) \<Longrightarrow>
     \<exists>v' l'. g = Suspended v' l' \<and> ((v', l'), (v, l)) \<in> loop_rel (canonical_dirs fs)"
  using assms
proof (induction v l rule: loop_induct)
  case (empty v)
  then show ?case by (simp add: all_files_loop_Nil)
next
  case (resolve_error v l e)
  then show ?case by (simp add: loop_resolve_error)
next
  case (skip v l r)
  from skip.prems skip.hyps have "all_files_loop fs v (butlast l) = Some (Inr (Some (f, g)))"
    by (simp add: loop_skip)
  from skip.IH [OF this] obtain v' l' where
    g: "g = Suspended v' l'" and
    d: "((v', l'), (v, butlast l)) \<in> loop_rel (canonical_dirs fs)"
    by blast
  have "((v, butlast l), (v, l)) \<in> loop_rel (canonical_dirs fs)"
    using skip.hyps by (intro loop_rel_shorter) simp
  with d have "((v', l'), (v, l)) \<in> loop_rel (canonical_dirs fs)"
    by (rule transD [OF trans_loop_rel])
  with g show ?case by blast
next
  case (iterdir_error v l r e)
  then show ?case by (simp add: loop_iterdir_error)
next
  case (descend v l r cs)
  from descend.prems descend.hyps
  have "all_files_loop fs (insert (str_path r) v) (butlast l @ cs) = Some (Inr (Some (f, g)))"
    by (simp add: loop_descend)
  from descend.IH [OF this] obtain v' l' where
    g: "g = Suspended v' l'" and
    d: "((v', l'), (insert (str_path r) v, butlast l @ cs)) \<in> loop_rel (canonical_dirs fs)"
    by blast
  have "((insert (str_path r) v, butlast l @ cs), (v, l)) \<in> loop_rel (canonical_dirs fs)"
    using assms canonical_dirs_member descend.hyps by (intro loop_rel_new_dir) auto
  with d have "((v', l'), (v, l)) \<in> loop_rel (canonical_dirs fs)"
    by (rule transD [OF trans_loop_rel])
  with g show ?case by blast
next
  case (yield v l r)
  have "((insert (str_path r) v, butlast l), (v, l)) \<in> loop_rel (canonical_dirs fs)"
    using assms yield.hyps by (intro loop_rel_file) simp_all
  with yield show ?case by (auto simp: loop_yield)
qed


lemma comprehension_same_next:
  "gen_next fs g = gen_next fs g' \<Longrightarrow> comprehension fs h g = comprehension fs h g'"
  by (simp add: comprehension.simps [of fs h g] comprehension.simps [of fs h g'])



lemma comprehension_Created_Inl:
  "iterdir fs d = Inl e \<Longrightarrow> comprehension fs h (Created d) = Some (Inl e)"
  by (subst comprehension.simps) (simp add: gen_next_def)

lemma comprehension_Created_Inr:
  "iterdir fs d = Inr cs \<Longrightarrow>
   comprehension fs h (Created d) = comprehension fs h (Suspended {} cs)"
  by (rule comprehension_same_next) (simp add: gen_next_def)


lemma comprehension_Suspended_terminates:
  assumes fin: "finite (canonical_dirs fs)"
  shows "\<exists>r. comprehension fs h (Suspended v l) = Some r"
proof (induction "(v, l)" arbitrary: v l rule: wf_induct_rule [OF wf_loop_rel [of "canonical_dirs fs"]])
  case less: 1
  from loop_terminates [OF fin] obtain r where r: "all_files_loop fs v l = Some r" by blast
  show ?case
  proof (cases r)
    case (Inl e)
    with r show ?thesis by (subst comprehension.simps) (simp add: gen_next_def)
  next
    case (Inr y)
    show ?thesis
    proof (cases y)
      case None
      with r Inr show ?thesis by (subst comprehension.simps) (simp add: gen_next_def)
    next
      case (Some fg)
      obtain f g where fg: "fg = (f, g)" by (cases fg)
      from r Inr Some fg have y: "all_files_loop fs v l = Some (Inr (Some (f, g)))" by simp
      from loop_yield_decreases [OF fin y] obtain v' l' where
        g: "g = Suspended v' l'" and d: "((v', l'), (v, l)) \<in> loop_rel (canonical_dirs fs)"
        by blast
      from less [OF d] obtain r' where r': "comprehension fs h (Suspended v' l') = Some r'"
        by blast
      show ?thesis
      proof (cases "h f")
        case (Inl e)
        with y show ?thesis by (subst comprehension.simps) (simp add: gen_next_def)
      next
        case hsh: (Inr hsh)
        with y g r' show ?thesis
          by (subst comprehension.simps) (cases r'; simp add: gen_next_def)
      qed
    qed
  qed
qed


lemma dir_contents_terminates:
  assumes "finite (canonical_dirs fs)"
  shows "\<exists>r. dir_contents fs d h = Some r"
proof (cases "iterdir fs d")
  case (Inl e)
  then show ?thesis
    by (simp add: dir_contents_def all_files_in_dir_def comprehension_Created_Inl)
next
  case (Inr cs)
  with comprehension_Suspended_terminates [OF assms] show ?thesis
    by (simp add: dir_contents_def all_files_in_dir_def comprehension_Created_Inr)
qed

lemma covered_terminates:
  assumes "finite (canonical_dirs fs)"
  shows "\<exists>r. covered fs src covered_by h = Some r"
proof -
  from dir_contents_terminates [OF assms] obtain r1 r2 where
    r1: "dir_contents fs src h = Some r1" and r2: "dir_contents fs covered_by h = Some r2"
    by blast
  then show ?thesis
    by (cases r1; cases r2; simp add: covered_def)
qed

section \<open>The tree enumerator: what a yield tells\<close>


lemma set_butlast_last: "l \<noteq> [] \<Longrightarrow> set l = insert (last l) (set (butlast l))"
  by (metis append_butlast_last_id list.simps(15) set_append Un_insert_right
      sup_bot.right_neutral list.set(1))


text \<open>The traversal stays inside a set of paths that holds the children of its directories.\<close>

lemma loop_yield_reach:
  assumes "finite (canonical_dirs fs)" and cl: "closed_under fs R"
  shows "set l \<subseteq> R \<Longrightarrow> all_files_loop fs v l = Some (Inr (Some (f, Suspended v' l'))) \<Longrightarrow>
     f \<in> R \<and> set l' \<subseteq> R"
  using assms(1)
proof (induction v l rule: loop_induct)
  case (empty v)
  then show ?case by (simp add: all_files_loop_Nil)
next
  case (resolve_error v l e)
  then show ?case by (simp add: loop_resolve_error)
next
  case (skip v l r)
  from skip.prems(1) skip.hyps(1) have "set (butlast l) \<subseteq> R"
    by (auto simp: set_butlast_last)
  moreover from skip.prems(2) skip.hyps
  have "all_files_loop fs v (butlast l) = Some (Inr (Some (f, Suspended v' l')))"
    by (simp add: loop_skip)
  ultimately show ?case by (rule skip.IH)
next
  case (iterdir_error v l r e)
  then show ?case by (simp add: loop_iterdir_error)
next
  case (descend v l r cs)
  from descend.prems(1) descend.hyps(1) have "last l \<in> R" and b: "set (butlast l) \<subseteq> R"
    by (auto simp: set_butlast_last)
  with cl descend.hyps have "set cs \<subseteq> R" by (auto simp: closed_under_def)
  with b have "set (butlast l @ cs) \<subseteq> R" by simp
  moreover from descend.prems(2) descend.hyps
  have "all_files_loop fs (insert (str_path r) v) (butlast l @ cs) =
      Some (Inr (Some (f, Suspended v' l')))"
    by (simp add: loop_descend)
  ultimately show ?case by (rule descend.IH)
next
  case (yield v l r)
  from yield.prems(1) yield.hyps(1) have "last l \<in> R" "set (butlast l) \<subseteq> R"
    by (auto simp: set_butlast_last)
  with yield show ?case by (auto simp: loop_yield)
qed

section \<open>The tree enumerator: the invariant of the traversal\<close>








section \<open>The tree enumerator: the whole enumeration\<close>




lemma closed_under_reachable: "closed_under fs (reachable fs d)"
  unfolding closed_under_def by (blast intro: reachable.descend)



section \<open>The concrete filesystem is finite and consistent\<close>

lemma join_parts_snoc: "xs \<noteq> [] \<Longrightarrow> join_parts (xs @ [n]) = join_parts xs @ ''/'' @ n"
  by (induction xs rule: join_parts.induct) simp_all

lemma demo_canon_joinpath:
  assumes "demo_listing (demo_canon p) \<noteq> None"
  shows "demo_canon (joinpath p n) =
     (if n = ''loop'' then demo_canon p else demo_canon p @ ''/'' @ n)"
proof -
  have "filter (\<lambda>n. n \<noteq> ''loop'') (parts p) \<noteq> []"
  proof
    assume "filter (\<lambda>n. n \<noteq> ''loop'') (parts p) = []"
    then have "demo_canon p = ''/''" by (simp add: demo_canon_def str_path_def)
    with assms show False by (simp add: demo_listing_def)
  qed
  then show ?thesis
    by (simp add: demo_canon_def joinpath_def str_path_def join_parts_snoc)
qed



lemma demo_finite: "finite (canonical_dirs demo_fs)"
proof (rule finite_subset)
  show "canonical_dirs demo_fs \<subseteq> {''/A'', ''/A/sub'', ''/B'', ''/D'', ''/E'', ''/F'', ''/G''}"
  proof
    fix s assume "s \<in> canonical_dirs demo_fs"
    then obtain p where "demo_listing (demo_canon p) \<noteq> None" "s = demo_canon p"
      by (auto simp: canonical_dirs_def demo_fs_sel demo_canon_def)
    then show "s \<in> {''/A'', ''/A/sub'', ''/B'', ''/D'', ''/E'', ''/F'', ''/G''}"
      by (simp add: demo_listing_def split: if_splits)
  qed
qed simp


section \<open>The tree enumerator: properties\<close>



section \<open>Two runs\<close>

text \<open>
  The loop in a second filesystem state that answers as the first does on a set of paths
  holding the work list and the children of its directories.
\<close>

lemma iterdir_same:
  "listdir fs' p = listdir fs p \<Longrightarrow> iterdir fs' p = iterdir fs p"
  by (simp add: iterdir_def)

lemma loop_same_answers:
  assumes fin: "finite (canonical_dirs fs)" and cl: "closed_under fs R"
    and ag: "\<forall>p \<in> R. resolve fs' p = resolve fs p \<and> is_dir fs' p = is_dir fs p \<and>
               listdir fs' p = listdir fs p"
  shows "set l \<subseteq> R \<Longrightarrow> all_files_loop fs' v l = all_files_loop fs v l"
  using fin
proof (induction v l rule: loop_induct)
  case (empty v)
  show ?case by (simp add: all_files_loop_Nil)
next
  case (resolve_error v l e)
  then have "last l \<in> R" by (auto simp: set_butlast_last)
  with ag resolve_error.hyps have "resolve fs' (last l) = Inl e" by simp
  with resolve_error.hyps show ?case by (simp add: loop_resolve_error)
next
  case (skip v l r)
  then have last: "last l \<in> R" and b: "set (butlast l) \<subseteq> R"
    by (auto simp: set_butlast_last)
  from ag last skip.hyps have "resolve fs' (last l) = Inr r" by simp
  with skip.hyps have "all_files_loop fs' v l = all_files_loop fs' v (butlast l)"
    by (simp add: loop_skip)
  also have "\<dots> = all_files_loop fs v (butlast l)" using b by (rule skip.IH)
  also have "\<dots> = all_files_loop fs v l" using skip.hyps by (simp add: loop_skip)
  finally show ?case .
next
  case (iterdir_error v l r e)
  then have last: "last l \<in> R" by (auto simp: set_butlast_last)
  from ag last have "iterdir fs' (last l) = iterdir fs (last l)"
    by (intro iterdir_same) simp
  with ag last iterdir_error.hyps have
    "resolve fs' (last l) = Inr r" "is_dir fs' (last l)" "iterdir fs' (last l) = Inl e"
    by simp_all
  with iterdir_error.hyps show ?case by (simp add: loop_iterdir_error)
next
  case (descend v l r cs)
  then have last: "last l \<in> R" and b: "set (butlast l) \<subseteq> R"
    by (auto simp: set_butlast_last)
  from cl last descend.hyps have "set cs \<subseteq> R" by (auto simp: closed_under_def)
  with b have sub: "set (butlast l @ cs) \<subseteq> R" by simp
  from ag last have "iterdir fs' (last l) = iterdir fs (last l)"
    by (intro iterdir_same) simp
  with ag last descend.hyps have
    "resolve fs' (last l) = Inr r" "is_dir fs' (last l)" "iterdir fs' (last l) = Inr cs"
    by simp_all
  with descend.hyps have "all_files_loop fs' v l =
      all_files_loop fs' (insert (str_path r) v) (butlast l @ cs)"
    by (simp add: loop_descend)
  also have "\<dots> = all_files_loop fs (insert (str_path r) v) (butlast l @ cs)"
    using sub by (rule descend.IH)
  also have "\<dots> = all_files_loop fs v l" using descend.hyps by (simp add: loop_descend)
  finally show ?case .
next
  case (yield v l r)
  then have last: "last l \<in> R" by (auto simp: set_butlast_last)
  from ag last yield.hyps have "resolve fs' (last l) = Inr r" "\<not> is_dir fs' (last l)"
    by simp_all
  with yield.hyps show ?case by (simp add: loop_yield)
qed

lemma comprehension_same_answers:
  assumes fin: "finite (canonical_dirs fs)" and cl: "closed_under fs R"
    and ag: "\<forall>p \<in> R. resolve fs' p = resolve fs p \<and> is_dir fs' p = is_dir fs p \<and>
               listdir fs' p = listdir fs p"
    and hs: "\<forall>p \<in> R. h' p = h p"
  shows "set l \<subseteq> R \<Longrightarrow>
     comprehension fs' h' (Suspended v l) = comprehension fs h (Suspended v l)"
proof (induction "(v, l)" arbitrary: v l rule: wf_induct_rule [OF wf_loop_rel [of "canonical_dirs fs"]])
  case less: 1
  from loop_terminates [OF fin] obtain r where r: "all_files_loop fs v l = Some r" by blast
  with loop_same_answers [OF fin cl ag less.prems]
  have r': "all_files_loop fs' v l = Some r" by simp
  show ?case
  proof (cases r)
    case (Inl e)
    with r r' show ?thesis
      by (simp add: comprehension.simps [of fs' h' "Suspended v l"]
          comprehension.simps [of fs h "Suspended v l"] gen_next_def)
  next
    case (Inr y)
    show ?thesis
    proof (cases y)
      case None
      with r r' Inr show ?thesis
        by (simp add: comprehension.simps [of fs' h' "Suspended v l"]
            comprehension.simps [of fs h "Suspended v l"] gen_next_def)
    next
      case (Some fg)
      obtain f g where fg: "fg = (f, g)" by (cases fg)
      from r Inr Some fg have y: "all_files_loop fs v l = Some (Inr (Some (f, g)))" by simp
      from r' Inr Some fg have y': "all_files_loop fs' v l = Some (Inr (Some (f, g)))" by simp
      from loop_yield_decreases [OF fin y] obtain v' l' where
        g: "g = Suspended v' l'" and d: "((v', l'), (v, l)) \<in> loop_rel (canonical_dirs fs)"
        by blast
      from loop_yield_reach [OF fin cl less.prems y [unfolded g]]
      have f: "f \<in> R" and sub: "set l' \<subseteq> R" by blast+
      from less.hyps [OF d sub]
      have rest: "comprehension fs' h' (Suspended v' l') = comprehension fs h (Suspended v' l')" .
      from hs f have "h' f = h f" by simp
      with y y' g rest show ?thesis
        by (cases "h f")
           (simp_all add: comprehension.simps [of fs' h' "Suspended v l"]
              comprehension.simps [of fs h "Suspended v l"] gen_next_def)
    qed
  qed
qed

lemma dir_contents_same_answers:
  assumes fin: "finite (canonical_dirs fs)" and ag: "same_answers fs fs' d"
    and hs: "\<forall>p \<in> reachable fs d. h' p = h p"
  shows "dir_contents fs' d h' = dir_contents fs d h"
proof -
  from ag have it: "iterdir fs' d = iterdir fs d"
    by (intro iterdir_same) (simp add: same_answers_def)
  from ag have ag': "\<forall>p \<in> reachable fs d. resolve fs' p = resolve fs p \<and>
      is_dir fs' p = is_dir fs p \<and> listdir fs' p = listdir fs p"
    by (simp add: same_answers_def)
  show ?thesis
  proof (cases "iterdir fs d")
    case (Inl e)
    with it show ?thesis
      by (simp add: dir_contents_def all_files_in_dir_def comprehension_Created_Inl)
  next
    case (Inr cs)
    then have "set cs \<subseteq> reachable fs d" by (auto intro: reachable.child)
    from comprehension_same_answers [OF fin closed_under_reachable ag' hs this]
    have "comprehension fs' h' (Suspended {} cs) = comprehension fs h (Suspended {} cs)" .
    with Inr it show ?thesis
      by (simp add: dir_contents_def all_files_in_dir_def comprehension_Created_Inr)
  qed
qed

section \<open>The other concrete filesystem answers alike outside \<open>D\<close>\<close>

lemma demo_reachable_prefix:
  assumes d: "demo_listing (demo_canon d) \<noteq> None"
  shows "p \<in> reachable demo_fs d \<Longrightarrow> \<exists>rest. demo_canon p = demo_canon d @ rest"
proof (induction rule: reachable.induct)
  case (child cs p)
  then obtain n where "p = joinpath d n"
    by (auto simp: iterdir_def demo_fs_sel split: option.splits)
  with d show ?case by (simp add: demo_canon_joinpath)
next
  case (descend q cs p)
  from descend.hyps(2) have q: "demo_listing (demo_canon q) \<noteq> None" by (simp add: demo_fs_sel)
  from descend.hyps(3,4) obtain n where "p = joinpath q n"
    by (auto simp: iterdir_def demo_fs_sel split: option.splits)
  with q descend.IH show ?case by (auto simp: demo_canon_joinpath)
qed

lemma demo_fs_other_sel:
  "resolve demo_fs_other p = resolve demo_fs p"
  "is_dir demo_fs_other p = (demo_canon p \<noteq> ''/D'' \<and> is_dir demo_fs p)"
  "listdir demo_fs_other p =
     (if demo_canon p = ''/D'' then Inl NotADirectoryError else listdir demo_fs p)"
  by (simp_all add: demo_fs_other_def)

lemma demo_same_answers_A: "same_answers demo_fs demo_fs_other (Path True [''A''])"
  unfolding same_answers_def
proof (intro conjI ballI)
  show "listdir demo_fs_other (Path True [''A'']) = listdir demo_fs (Path True [''A''])"
    by (simp add: demo_fs_other_sel demo_canon_def str_path_def)
next
  fix p assume "p \<in> reachable demo_fs (Path True [''A''])"
  then obtain rest where "demo_canon p = demo_canon (Path True [''A'']) @ rest"
    by (rule demo_reachable_prefix [rotated, THEN exE])
       (simp add: demo_canon_def demo_listing_def str_path_def)
  then have n: "demo_canon p \<noteq> ''/D''" by (simp add: demo_canon_def str_path_def)
  show "resolve demo_fs_other p = resolve demo_fs p" by (simp add: demo_fs_other_sel)
  from n show "is_dir demo_fs_other p = is_dir demo_fs p" by (simp add: demo_fs_other_sel)
  from n show "listdir demo_fs_other p = listdir demo_fs p" by (simp add: demo_fs_other_sel)
qed

lemma demo_same_answers_B: "same_answers demo_fs demo_fs_other (Path True [''B''])"
  unfolding same_answers_def
proof (intro conjI ballI)
  show "listdir demo_fs_other (Path True [''B'']) = listdir demo_fs (Path True [''B''])"
    by (simp add: demo_fs_other_sel demo_canon_def str_path_def)
next
  fix p assume "p \<in> reachable demo_fs (Path True [''B''])"
  then obtain rest where "demo_canon p = demo_canon (Path True [''B'']) @ rest"
    by (rule demo_reachable_prefix [rotated, THEN exE])
       (simp add: demo_canon_def demo_listing_def str_path_def)
  then have n: "demo_canon p \<noteq> ''/D''" by (simp add: demo_canon_def str_path_def)
  show "resolve demo_fs_other p = resolve demo_fs p" by (simp add: demo_fs_other_sel)
  from n show "is_dir demo_fs_other p = is_dir demo_fs p" by (simp add: demo_fs_other_sel)
  from n show "listdir demo_fs_other p = listdir demo_fs p" by (simp add: demo_fs_other_sel)
qed

lemma demo_other_differs:
  "is_dir demo_fs (Path True [''D''])" "\<not> is_dir demo_fs_other (Path True [''D''])"
  by (simp_all add: demo_fs_other_sel demo_simps str_path_def)

text \<open>
  C9. A run of \<open>covered\<close> on a filesystem with finitely many directories ends, and a
  second run returns what the first returned, the same (path, hash) pairs in the same
  order or the same error, whenever the operating system and the hash function answer the
  second run as they answered the first for the paths the first run asked about. The
  result is thus a function of the filesystem state as the run observes it; two runs in
  one state are the case where all answers are the same.
\<close>

theorem covered_two_runs_identical:
  assumes "finite (canonical_dirs fs)"
    and "same_answers fs fs' A" and "same_answers fs fs' B"
    and "\<forall>p \<in> reachable fs A \<union> reachable fs B. hash_fun' p = hash_fun p"
  shows "\<exists>r. covered fs A B hash_fun = Some r \<and> covered fs' A B hash_fun' = Some r"
proof -
  from assms(4) have hA: "\<forall>p \<in> reachable fs A. hash_fun' p = hash_fun p"
    and hB: "\<forall>p \<in> reachable fs B. hash_fun' p = hash_fun p"
    by auto
  have a: "dir_contents fs' A hash_fun' = dir_contents fs A hash_fun"
    using assms(1,2) hA by (rule dir_contents_same_answers)
  have b: "dir_contents fs' B hash_fun' = dir_contents fs B hash_fun"
    using assms(1,3) hB by (rule dir_contents_same_answers)
  have "covered fs' A B hash_fun' = covered fs A B hash_fun"
    unfolding covered_def a b by (rule refl)
  with covered_terminates [OF assms(1), of A B hash_fun] show ?thesis by auto
qed

theorem covered_two_runs_identical_witness:
  "covered demo_fs (Path True [''A'']) (Path True [''B'']) demo_hash =
     Some (Inr [(Path True [''A'', ''loop'', ''sub'', ''b.txt''], ''776f726c64'')]) \<and>
   covered demo_fs_other (Path True [''A'']) (Path True [''B'']) demo_hash =
     Some (Inr [(Path True [''A'', ''loop'', ''sub'', ''b.txt''], ''776f726c64'')]) \<and>
   is_dir demo_fs (Path True [''D'']) \<and> \<not> is_dir demo_fs_other (Path True [''D''])"
proof -
  have first: "covered demo_fs (Path True [''A'']) (Path True [''B'']) demo_hash =
      Some (Inr [(Path True [''A'', ''loop'', ''sub'', ''b.txt''], ''776f726c64'')])"
    using covered_of_enumerations [OF demo_files_A demo_files_B, of demo_hash]
    by (simp add: demo_hash_values)
  have "\<forall>p \<in> reachable demo_fs (Path True [''A'']) \<union> reachable demo_fs (Path True [''B'']).
      demo_hash p = demo_hash p"
    by simp
  from covered_two_runs_identical [OF demo_finite demo_same_answers_A demo_same_answers_B this]
  obtain r where "covered demo_fs (Path True [''A'']) (Path True [''B'']) demo_hash = Some r"
    "covered demo_fs_other (Path True [''A'']) (Path True [''B'']) demo_hash = Some r"
    by blast
  with first have "covered demo_fs_other (Path True [''A'']) (Path True [''B'']) demo_hash =
      Some (Inr [(Path True [''A'', ''loop'', ''sub'', ''b.txt''], ''776f726c64'')])"
    by simp
  with first demo_other_differs show ?thesis by simp
qed

end
